theory Spec2Isabelle
  imports Main "HOL-Library.Word"
begin

section \<open>JavaScript strings\<close>

text \<open>
  A JavaScript string is a sequence of UTF-16 code units. The rule uses regular expressions
  without the \<open>u\<close> flag, so every string operation below works on code units.
  \<open>js\<close> turns an ASCII literal into such a string.
\<close>

type_synonym jschar = "16 word"
type_synonym jsstring = "jschar list"

definition js :: "string \<Rightarrow> jsstring" where
  "js s = map (\<lambda>c. of_nat (of_char c)) s"

definition slash :: jschar where "slash = 0x2F"
definition dot :: jschar where "dot = 0x2E"
definition at_sign :: jschar where "at_sign = 0x40"

text \<open>\<open>String.prototype.startsWith\<close>, \<open>includes\<close> with a one-character needle, \<open>slice(n)\<close>.\<close>

definition startsWith :: "jsstring \<Rightarrow> jsstring \<Rightarrow> bool" where
  "startsWith s t = (take (length t) s = t)"

definition includes_char :: "jsstring \<Rightarrow> jschar \<Rightarrow> bool" where
  "includes_char s c = (c \<in> set s)"

definition slice_from :: "jsstring \<Rightarrow> nat \<Rightarrow> jsstring" where
  "slice_from s n = drop n s"

text \<open>
  \<open>s.split('/')\<close>: the pieces between the separators; the empty string gives one empty
  piece, and there is always one piece more than there are separators.
\<close>

fun split :: "jsstring \<Rightarrow> jschar \<Rightarrow> jsstring list" where
  "split [] sep = [[]]"
| "split (c # cs) sep =
     (if c = sep then [] # split cs sep
      else (case split cs sep of [] \<Rightarrow> [[c]] | piece # pieces \<Rightarrow> (c # piece) # pieces))"

section \<open>Regular expressions\<close>

text \<open>
  The regular expressions of the rule use literals, character classes, grouping,
  alternation, \<open>*\<close>, \<open>+\<close> and \<open>?\<close>; no back-references or look-around. A class is a list
  of inclusive ranges, possibly negated.
\<close>

datatype regex =
    Zero
  | Epsilon
  | Chr jschar
  | Cls bool "(jschar \<times> jschar) list"
  | Seq regex regex
  | Alt regex regex
  | Star regex

definition in_ranges :: "(jschar \<times> jschar) list \<Rightarrow> jschar \<Rightarrow> bool" where
  "in_ranges rs c = list_ex (\<lambda>r. fst r \<le> c \<and> c \<le> snd r) rs"

definition in_class :: "bool \<Rightarrow> (jschar \<times> jschar) list \<Rightarrow> jschar \<Rightarrow> bool" where
  "in_class negated rs c = (in_ranges rs c \<noteq> negated)"

definition OneOrMore :: "regex \<Rightarrow> regex" where
  "OneOrMore r = Seq r (Star r)"

definition Opt :: "regex \<Rightarrow> regex" where
  "Opt r = Alt r Epsilon"

fun Lit :: "jsstring \<Rightarrow> regex" where
  "Lit [] = Epsilon"
| "Lit (c # cs) = Seq (Chr c) (Lit cs)"

text \<open>Matching by derivatives; \<open>alt\<close> and \<open>seq\<close> drop the dead and the empty parts.\<close>

fun nullable :: "regex \<Rightarrow> bool" where
  "nullable Zero = False"
| "nullable Epsilon = True"
| "nullable (Chr c) = False"
| "nullable (Cls n rs) = False"
| "nullable (Seq a b) = (nullable a \<and> nullable b)"
| "nullable (Alt a b) = (nullable a \<or> nullable b)"
| "nullable (Star a) = True"

fun alt :: "regex \<Rightarrow> regex \<Rightarrow> regex" where
  "alt Zero b = b"
| "alt a Zero = a"
| "alt a b = Alt a b"

fun seq :: "regex \<Rightarrow> regex \<Rightarrow> regex" where
  "seq Zero b = Zero"
| "seq a Zero = Zero"
| "seq Epsilon b = b"
| "seq a b = Seq a b"

fun deriv :: "jschar \<Rightarrow> regex \<Rightarrow> regex" where
  "deriv c Zero = Zero"
| "deriv c Epsilon = Zero"
| "deriv c (Chr d) = (if c = d then Epsilon else Zero)"
| "deriv c (Cls n rs) = (if in_class n rs c then Epsilon else Zero)"
| "deriv c (Seq a b) =
     (if nullable a then alt (seq (deriv c a) b) (deriv c b) else seq (deriv c a) b)"
| "deriv c (Alt a b) = alt (deriv c a) (deriv c b)"
| "deriv c (Star a) = seq (deriv c a) (Star a)"

text \<open>
  \<open>full_match r s\<close>: the whole of \<open>s\<close> matches \<open>r\<close>. This is \<open>/^r$/.test(s)\<close>: without the
  \<open>m\<close> flag \<open>^\<close> and \<open>$\<close> match only at the two ends of the input.
\<close>

fun full_match :: "regex \<Rightarrow> jsstring \<Rightarrow> bool" where
  "full_match r [] = nullable r"
| "full_match r (c # cs) = full_match (deriv c r) cs"

text \<open>
  \<open>s.replace(/r$/, '')\<close> for a regular expression without the \<open>g\<close> flag: the search takes
  the leftmost position where a match starts; the match has to reach the end of the
  input, so what is left is the text before that position.
\<close>

fun replace_at_end :: "regex \<Rightarrow> jsstring \<Rightarrow> jsstring" where
  "replace_at_end r [] = []"
| "replace_at_end r (c # cs) = (if full_match r (c # cs) then [] else c # replace_at_end r cs)"

section \<open>The regular expressions of the rule\<close>

text \<open>\<open>[0-9A-Za-z-]\<close>, \<open>[^/]\<close>, and \<open>.\<close> (any code unit but the four line terminators).\<close>

definition segment_char :: regex where
  "segment_char = Cls False [(0x30, 0x39), (0x41, 0x5A), (0x61, 0x7A), (0x2D, 0x2D)]"

definition is_segment_char :: "jschar \<Rightarrow> bool" where
  "is_segment_char c =
     ((0x30 \<le> c \<and> c \<le> 0x39) \<or> (0x41 \<le> c \<and> c \<le> 0x5A) \<or> (0x61 \<le> c \<and> c \<le> 0x7A) \<or> c = 0x2D)"

definition not_slash :: regex where
  "not_slash = Cls True [(0x2F, 0x2F)]"

definition any_char :: regex where
  "any_char = Cls True [(0x0A, 0x0A), (0x0D, 0x0D), (0x2028, 0x2029)]"

text \<open>The line terminators of ECMAScript, which \<open>.\<close> does not match.\<close>

definition line_terminator :: "jschar \<Rightarrow> bool" where
  "line_terminator c = (c = 0x0A \<or> c = 0x0D \<or> c = 0x2028 \<or> c = 0x2029)"

text \<open>\<^verbatim>\<open>/^@\/([^/]+)\/(.+)$/\<close>\<close>

definition topLevel_re :: regex where
  "topLevel_re =
     Seq (Chr at_sign) (Seq (Chr slash) (Seq (OneOrMore not_slash) (Seq (Chr slash) (OneOrMore any_char))))"

text \<open>\<^verbatim>\<open>/\.(ts|tsx|js|jsx)$/\<close>\<close>

definition extension_re :: regex where
  "extension_re =
     Seq (Chr dot) (Alt (Lit (js ''ts'')) (Alt (Lit (js ''tsx'')) (Alt (Lit (js ''js'')) (Lit (js ''jsx'')))))"

text \<open>\<^verbatim>\<open>/^entry(\.[0-9A-Za-z-]+)*$/\<close>\<close>

definition normalEntry_re :: regex where
  "normalEntry_re = Seq (Lit (js ''entry'')) (Star (Seq (Chr dot) (OneOrMore segment_char)))"

text \<open>\<^verbatim>\<open>/^entry\.\.(([0-9A-Za-z-]+\.)*)?children$/\<close>\<close>

definition childrenEntry_re :: regex where
  "childrenEntry_re =
     Seq (Lit (js ''entry'')) (Seq (Chr dot) (Seq (Chr dot)
       (Seq (Opt (Star (Seq (OneOrMore segment_char) (Chr dot)))) (Lit (js ''children'')))))"

definition isNormalEntry :: "jsstring \<Rightarrow> bool" where
  "isNormalEntry fileName = full_match normalEntry_re fileName"

definition isChildrenEntry :: "jsstring \<Rightarrow> bool" where
  "isChildrenEntry fileName = full_match childrenEntry_re fileName"

text \<open>The four endings that \<open>extension_re\<close> accepts, and \<open>String.prototype.endsWith\<close>.\<close>

definition extensions :: "jsstring list" where
  "extensions = [js ''.ts'', js ''.tsx'', js ''.js'', js ''.jsx'']"

definition endsWith :: "jsstring \<Rightarrow> jsstring \<Rightarrow> bool" where
  "endsWith s t = (length t \<le> length s \<and> drop (length s - length t) s = t)"

definition has_extension :: "jsstring \<Rightarrow> bool" where
  "has_extension s = list_ex (endsWith s) extensions"

definition strip_extension :: "jsstring \<Rightarrow> jsstring" where
  "strip_extension s = replace_at_end extension_re s"

text \<open>
  \<open>importPath.match(/^@\/([^/]+)\/(.+)$/)\<close>: \<open>None\<close> when the path does not match, else the
  two groups. The first group cannot hold a separator and a separator follows it, so it
  is the text between the marker and the next separator; the second group is the rest.
\<close>

definition match_topLevel :: "jsstring \<Rightarrow> (jsstring \<times> jsstring) option" where
  "match_topLevel importPath =
     (if full_match topLevel_re importPath
      then (let moduleName = takeWhile (\<lambda>c. c \<noteq> slash) (drop 2 importPath)
            in Some (moduleName, drop (length moduleName + 3) importPath))
      else None)"

section \<open>\<open>path.basename\<close>\<close>

text \<open>
  \<open>path.basename\<close> is a function of the Node.js library. This is its POSIX form (the
  separator is \<open>/\<close>): trailing separators are ignored, and the result is the text after
  the last separator that is left. On Windows Node takes the backslash as a separator
  too; the theorems below are about the POSIX function.
\<close>

definition basename :: "jsstring \<Rightarrow> jsstring" where
  "basename p = rev (takeWhile (\<lambda>c. c \<noteq> slash) (dropWhile (\<lambda>c. c = slash) (rev p)))"

section \<open>The rule \<open>no-invalid-entry-imports\<close>\<close>

datatype messageId =
    invalidParentImport
  | invalidSubdirectoryImport
  | tooManyDirectorySegments
  | invalidTopLevelImport
  | invalidTopLevelImportDepth
  | invalidTopLevelImportChildren

text \<open>
  The handler \<open>ImportDeclaration\<close> calls \<open>context.report\<close> and returns. The model returns
  the list of the message ids reported by one call, in order; the three branches are the
  bodies of the three \<open>if\<close> blocks of the handler.
\<close>

definition topLevel_branch :: "jsstring \<Rightarrow> messageId list" where
  "topLevel_branch importPath =
     (case match_topLevel importPath of
        None \<Rightarrow> [invalidTopLevelImport]
      | Some (moduleName, filePath) \<Rightarrow>
          if includes_char filePath slash then [invalidTopLevelImportDepth]
          else (let fileName = strip_extension filePath in
                if isChildrenEntry fileName then [invalidTopLevelImportChildren]
                else (if \<not> isNormalEntry fileName then [invalidTopLevelImport] else [])))"

definition parent_branch :: "jsstring \<Rightarrow> messageId list" where
  "parent_branch importPath =
     (let pathSegments = split importPath slash in
      if length pathSegments > 2 then [tooManyDirectorySegments]
      else (let fileName = strip_extension (basename importPath) in
            (if \<not> isChildrenEntry fileName then [invalidParentImport] else [])))"

definition subdirectory_branch :: "jsstring \<Rightarrow> messageId list" where
  "subdirectory_branch importPath =
     (let pathWithoutPrefix = slice_from importPath 2;
          segments = split pathWithoutPrefix slash in
      if length segments = 1 then []
      else if length segments > 2 then [tooManyDirectorySegments]
      else (let fileName = strip_extension (basename importPath) in
            if \<not> isNormalEntry fileName then [invalidSubdirectoryImport]
            else (if isChildrenEntry fileName then [invalidSubdirectoryImport] else [])))"

definition ImportDeclaration :: "jsstring \<Rightarrow> messageId list" where
  "ImportDeclaration importPath =
     (if \<not> startsWith importPath (js ''.'') \<and> \<not> startsWith importPath (js ''@/'') then []
      else if startsWith importPath (js ''@/'') then topLevel_branch importPath
      else if startsWith importPath (js ''..'') then parent_branch importPath
      else if startsWith importPath (js ''./'') then subdirectory_branch importPath
      else [])"

section \<open>What the matcher computes\<close>

text \<open>
  The matcher satisfies the defining clauses of regular languages, so \<open>full_match r s\<close>
  says that \<open>s\<close> is a word of the language of \<open>r\<close>.
\<close>

lemma full_match_Zero [simp]: "full_match Zero s = False"
  by (induction s) simp_all

lemma full_match_Epsilon [simp]: "full_match Epsilon s = (s = [])"
  by (cases s) simp_all

lemma full_match_Chr [simp]: "full_match (Chr c) s = (s = [c])"
  by (cases s) auto

lemma full_match_Cls: "full_match (Cls n rs) s = (\<exists>c. s = [c] \<and> in_class n rs c)"
  by (cases s) auto

lemma full_match_alt: "full_match (alt a b) s = (full_match a s \<or> full_match b s)"
proof (induction s arbitrary: a b)
  case Nil
  show ?case by (cases "(a, b)" rule: alt.cases) simp_all
next
  case (Cons c s)
  show ?case by (cases "(a, b)" rule: alt.cases) (simp_all add: Cons.IH)
qed

lemma full_match_Alt [simp]: "full_match (Alt a b) s = (full_match a s \<or> full_match b s)"
  by (cases s) (simp_all add: full_match_alt)

lemma full_match_Seq: "full_match (Seq a b) s = (\<exists>u v. s = u @ v \<and> full_match a u \<and> full_match b v)"
proof (induction s arbitrary: a b)
  case Nil
  show ?case by simp
next
  case (Cons c s)
  have sq: "full_match (seq x y) s = (\<exists>u v. s = u @ v \<and> full_match x u \<and> full_match y v)" for x y
    by (cases "(x, y)" rule: seq.cases) (simp_all add: Cons.IH)
  let ?A = "\<exists>u v. s = u @ v \<and> full_match (deriv c a) u \<and> full_match b v"
  let ?B = "nullable a \<and> full_match (deriv c b) s"
  let ?R = "\<exists>u v. c # s = u @ v \<and> full_match a u \<and> full_match b v"
  have lhs: "full_match (Seq a b) (c # s) = (?A \<or> ?B)"
    by (simp add: full_match_alt sq)
  have "?R = (?A \<or> ?B)"
  proof
    assume ?R
    then obtain u v where uv: "c # s = u @ v" "full_match a u" "full_match b v" by blast
    show "?A \<or> ?B"
    proof (cases u)
      case Nil
      with uv show ?thesis by auto
    next
      case (Cons x u')
      with uv have "s = u' @ v" "full_match (deriv c a) u'" by auto
      with uv(3) show ?thesis by blast
    qed
  next
    assume "?A \<or> ?B"
    then show ?R
    proof
      assume ?A
      then obtain u v where "s = u @ v" "full_match (deriv c a) u" "full_match b v" by blast
      then have "c # s = (c # u) @ v \<and> full_match a (c # u) \<and> full_match b v" by simp
      then show ?R by blast
    next
      assume ?B
      then have "c # s = [] @ (c # s) \<and> full_match a [] \<and> full_match b (c # s)" by simp
      then show ?R by blast
    qed
  qed
  with lhs show ?case by simp
qed

lemma full_match_seq: "full_match (seq a b) s = full_match (Seq a b) s"
  by (cases "(a, b)" rule: seq.cases) (simp_all add: full_match_Seq)

lemma full_match_Star:
  "full_match (Star a) s =
     (s = [] \<or> (\<exists>u v. s = u @ v \<and> u \<noteq> [] \<and> full_match a u \<and> full_match (Star a) v))"
proof (cases s)
  case Nil
  then show ?thesis by simp
next
  case (Cons c cs)
  let ?R = "\<exists>u v. c # cs = u @ v \<and> u \<noteq> [] \<and> full_match a u \<and> full_match (Star a) v"
  have lhs: "full_match (Star a) (c # cs) =
      (\<exists>u v. cs = u @ v \<and> full_match (deriv c a) u \<and> full_match (Star a) v)"
    by (simp add: full_match_seq full_match_Seq)
  have "?R = (\<exists>u v. cs = u @ v \<and> full_match (deriv c a) u \<and> full_match (Star a) v)"
  proof
    assume ?R
    then obtain u v where uv: "c # cs = u @ v" "u \<noteq> []" "full_match a u" "full_match (Star a) v"
      by blast
    then obtain u' where "u = c # u'" by (cases u) auto
    with uv have "cs = u' @ v \<and> full_match (deriv c a) u' \<and> full_match (Star a) v" by simp
    then show "\<exists>u v. cs = u @ v \<and> full_match (deriv c a) u \<and> full_match (Star a) v" by blast
  next
    assume "\<exists>u v. cs = u @ v \<and> full_match (deriv c a) u \<and> full_match (Star a) v"
    then obtain u v where "cs = u @ v" "full_match (deriv c a) u" "full_match (Star a) v" by blast
    then have "c # cs = (c # u) @ v \<and> c # u \<noteq> [] \<and> full_match a (c # u) \<and> full_match (Star a) v"
      by simp
    then show ?R by blast
  qed
  with lhs Cons show ?thesis by simp
qed

lemma full_match_Star_concat:
  "full_match (Star a) s = (\<exists>ws. s = concat ws \<and> (\<forall>w\<in>set ws. w \<noteq> [] \<and> full_match a w))"
proof
  show "full_match (Star a) s \<Longrightarrow> \<exists>ws. s = concat ws \<and> (\<forall>w\<in>set ws. w \<noteq> [] \<and> full_match a w)"
  proof (induction "length s" arbitrary: s rule: less_induct)
    case less
    show ?case
    proof (cases "s = []")
      case True
      then have "s = concat [] \<and> (\<forall>w\<in>set []. w \<noteq> [] \<and> full_match a w)" by simp
      then show ?thesis by blast
    next
      case False
      with less.prems obtain u v where uv: "s = u @ v" "u \<noteq> []" "full_match a u" "full_match (Star a) v"
        by (subst (asm) full_match_Star) auto
      then have "length v < length s" by simp
      from less.hyps [OF this uv(4)] obtain ws where
        ws: "v = concat ws" "\<forall>w\<in>set ws. w \<noteq> [] \<and> full_match a w" by blast
      with uv have "s = concat (u # ws) \<and> (\<forall>w\<in>set (u # ws). w \<noteq> [] \<and> full_match a w)" by simp
      then show ?thesis by blast
    qed
  qed
next
  assume "\<exists>ws. s = concat ws \<and> (\<forall>w\<in>set ws. w \<noteq> [] \<and> full_match a w)"
  then obtain ws where "s = concat ws" "\<forall>w\<in>set ws. w \<noteq> [] \<and> full_match a w" by blast
  then show "full_match (Star a) s"
  proof (induction ws arbitrary: s)
    case Nil
    then show ?case by (simp add: full_match.simps)
  next
    case (Cons w ws)
    then have "full_match (Star a) (concat ws)" by simp
    with Cons.prems show ?case
      by (subst full_match_Star) auto
  qed
qed

lemma full_match_Star_Cls:
  "full_match (Star (Cls n rs)) s = (\<forall>c\<in>set s. in_class n rs c)"
  by (induction s) (simp_all add: full_match_seq full_match_Seq full_match_Cls)

lemma full_match_OneOrMore_Cls:
  "full_match (OneOrMore (Cls n rs)) s = (s \<noteq> [] \<and> (\<forall>c\<in>set s. in_class n rs c))"
  by (cases s) (auto simp: OneOrMore_def full_match_Star_Cls full_match_seq full_match_Seq full_match_Cls)

lemma full_match_Lit: "full_match (Lit t) s = (s = t)"
  by (induction t arbitrary: s) (auto simp: full_match_Seq)

lemma full_match_Lit_Seq: "full_match (Seq (Lit t) r) s = (\<exists>v. s = t @ v \<and> full_match r v)"
  by (auto simp: full_match_Seq full_match_Lit)

lemma full_match_Chr_Seq: "full_match (Seq (Chr c) r) s = (\<exists>v. s = c # v \<and> full_match r v)"
  by (auto simp: full_match_Seq)

text \<open>From here on the matcher is used through the clauses above.\<close>

declare full_match.simps [simp del]

subsection \<open>The top-level pattern\<close>

lemma js_Nil [simp]: "js [] = []" by (simp add: js_def)
lemma js_append: "js (a @ b) = js a @ js b" by (simp add: js_def)

lemma not_slash_class: "in_class True [(0x2F, 0x2F)] c = (c \<noteq> slash)"
  by (auto simp: in_class_def in_ranges_def slash_def)

lemma segment_class_dot: "\<not> in_class False [(0x30, 0x39), (0x41, 0x5A), (0x61, 0x7A), (0x2D, 0x2D)] dot"
  by (simp add: in_class_def in_ranges_def dot_def)

lemma any_char_class:
  "in_class True [(0x0A, 0x0A), (0x0D, 0x0D), (0x2028, 0x2029)] c = (\<not> line_terminator c)"
proof -
  have "(0x2028 \<le> c \<and> c \<le> 0x2029) = (c = 0x2028 \<or> c = 0x2029)"
    by (simp add: word_le_nat_alt word_unat_eq_iff) arith
  then show ?thesis
    by (auto simp: in_class_def in_ranges_def line_terminator_def)
qed


lemma js_marker: "js ''@/'' = [at_sign, slash]"
  by (simp add: js_def at_sign_def slash_def)

lemma full_match_topLevel:
  "full_match topLevel_re p =
     (\<exists>m r. p = js ''@/'' @ m @ slash # r \<and> m \<noteq> [] \<and> slash \<notin> set m \<and>
            r \<noteq> [] \<and> (\<forall>c\<in>set r. \<not> line_terminator c))"
  unfolding topLevel_re_def not_slash_def any_char_def js_marker
  by (simp add: full_match_Chr_Seq full_match_Seq [of "OneOrMore _"] full_match_OneOrMore_Cls
        not_slash_class any_char_class) blast

lemma takeWhile_module:
  "slash \<notin> set m \<Longrightarrow> takeWhile (\<lambda>c. c \<noteq> slash) (m @ slash # r) = m"
  by (induction m) auto

lemma match_topLevel_Some:
  assumes "m \<noteq> []" "slash \<notin> set m" "r \<noteq> []" "\<forall>c\<in>set r. \<not> line_terminator c"
  shows "match_topLevel (js ''@/'' @ m @ slash # r) = Some (m, r)"
proof -
  have fm: "full_match topLevel_re (js ''@/'' @ m @ slash # r)"
    unfolding full_match_topLevel using assms by blast
  have tw: "takeWhile (\<lambda>c. c \<noteq> slash) (drop 2 (js ''@/'' @ m @ slash # r)) = m"
    using assms(2) by (simp add: js_marker takeWhile_module)
  have dr: "drop (length m + 3) (js ''@/'' @ m @ slash # r) = r"
    by (simp add: js_marker eval_nat_numeral)
  show ?thesis
    unfolding match_topLevel_def Let_def tw dr by (simp only: fm if_True)
qed

lemma match_topLevel_None:
  assumes "\<not> (\<exists>m r. p = js ''@/'' @ m @ slash # r \<and> m \<noteq> [] \<and> slash \<notin> set m \<and>
            r \<noteq> [] \<and> (\<forall>c\<in>set r. \<not> line_terminator c))"
  shows "match_topLevel p = None"
proof -
  have "\<not> full_match topLevel_re p"
    unfolding full_match_topLevel by (rule assms)
  then show ?thesis
    unfolding match_topLevel_def by (simp only: if_False)
qed

subsection \<open>Stripping the extension\<close>

lemma full_match_extension: "full_match extension_re s = (s \<in> set extensions)"
  unfolding extension_re_def extensions_def
  by (auto simp: full_match_Chr_Seq full_match_Lit js_def dot_def)

lemma endsWith_append: "endsWith (b @ e) e"
  by (simp add: endsWith_def)

lemma endsWith_Cons: "endsWith s t \<Longrightarrow> endsWith (c # s) t"
  by (simp add: endsWith_def Suc_diff_le)

lemma endsWith_iff: "endsWith s t = (\<exists>b. s = b @ t)"
proof
  assume "endsWith s t"
  then have "s = take (length s - length t) s @ t"
    by (metis append_take_drop_id endsWith_def)
  then show "\<exists>b. s = b @ t" ..
next
  assume "\<exists>b. s = b @ t"
  then show "endsWith s t" by (auto simp: endsWith_append)
qed

lemma has_extension_iff: "has_extension s = (\<exists>b e. e \<in> set extensions \<and> s = b @ e)"
  by (auto simp: has_extension_def list_ex_iff endsWith_iff)

lemma has_extension_Cons: "has_extension s \<Longrightarrow> has_extension (c # s)"
  unfolding has_extension_def list_ex_iff using endsWith_Cons by blast

lemma strip_extension_Nil [simp]: "strip_extension [] = []"
  by (simp add: strip_extension_def)

lemma strip_extension_Cons:
  "strip_extension (c # cs) = [] \<or> (\<exists>t. strip_extension (c # cs) = c # t)"
  by (simp add: strip_extension_def)

lemma strip_extension_same: "\<not> has_extension s \<Longrightarrow> strip_extension s = s"
proof (induction s)
  case Nil
  show ?case by simp
next
  case (Cons c s)
  have "\<not> has_extension s" using Cons.prems has_extension_Cons by blast
  then have ih: "replace_at_end extension_re s = s" using Cons.IH by (simp add: strip_extension_def)
  have "\<not> full_match extension_re (c # s)"
  proof
    assume "full_match extension_re (c # s)"
    then have "c # s \<in> set extensions" by (simp add: full_match_extension)
    then have "has_extension (c # s)" unfolding has_extension_iff by (metis append_Nil)
    with Cons.prems show False by simp
  qed
  with ih show ?case by (simp add: strip_extension_def)
qed

lemma extension_not_longer:
  assumes "e \<in> set extensions" shows "c # b @ e \<notin> set extensions"
proof
  assume "c # b @ e \<in> set extensions"
  then have "rev (c # b @ e) \<in> rev ` set extensions" by blast
  with assms show False
    by (auto simp: extensions_def js_def)
qed

lemma strip_extension_append:
  assumes "e \<in> set extensions" shows "strip_extension (b @ e) = b"
proof (induction b)
  case Nil
  from assms have "e \<noteq> []" by (auto simp: extensions_def js_def)
  then obtain c cs where "e = c # cs" by (cases e) auto
  with assms show ?case by (simp add: strip_extension_def full_match_extension)
next
  case (Cons c b)
  then show ?case
    using extension_not_longer [OF assms]
    by (simp add: strip_extension_def full_match_extension)
qed

subsection \<open>Splitting and \<open>basename\<close>\<close>

lemma split_not_Nil [simp]: "split s sep \<noteq> []"
  by (induction s) (auto split: list.splits)

lemma length_split: "length (split s sep) = Suc (length (filter (\<lambda>c. c = sep) s))"
  by (induction s) (auto split: list.splits)

lemma split_no_sep: "sep \<notin> set s \<Longrightarrow> split s sep = [s]"
  by (induction s) auto

lemma split_append_no_sep:
  "sep \<notin> set e \<Longrightarrow> split (s @ e) sep = butlast (split s sep) @ [last (split s sep) @ e]"
  by (induction s) (auto simp: split_no_sep split: list.splits)

lemma last_split: "last (split s sep) = rev (takeWhile (\<lambda>c. c \<noteq> sep) (rev s))"
proof (induction s)
  case Nil
  show ?case by simp
next
  case (Cons c s)
  show ?case
  proof (cases "sep \<in> set s")
    case True
    then have "sep \<in> set (rev s)" by simp
    then have tw: "takeWhile (\<lambda>c. c \<noteq> sep) (rev s @ [c]) = takeWhile (\<lambda>c. c \<noteq> sep) (rev s)"
      by (rule takeWhile_append1) simp
    from True have "filter (\<lambda>c. c = sep) s \<noteq> []" by (simp add: filter_empty_conv)
    then have len: "2 \<le> length (split s sep)"
      by (cases "filter (\<lambda>c. c = sep) s") (simp_all add: length_split)
    obtain a r1 where a: "split s sep = a # r1" by (cases "split s sep") simp_all
    with len obtain b rest where "r1 = b # rest" by (cases r1) simp_all
    with a have sp: "split s sep = a # b # rest" by simp
    have "last (split (c # s) sep) = last (split s sep)"
      by (simp add: sp)
    with Cons.IH tw show ?thesis by simp
  next
    case False
    have tw2: "takeWhile (\<lambda>c. c \<noteq> sep) (rev s @ [y]) = rev s @ takeWhile (\<lambda>c. c \<noteq> sep) [y]" for y
      by (rule takeWhile_append2) (use False in auto)
    show ?thesis using False
      by (cases "c = sep") (simp_all add: split_no_sep tw2)
  qed
qed

lemma split_pieces: "\<forall>x\<in>set (split s sep). sep \<notin> set x"
  by (induction s) (auto split: list.splits)

lemma join_split:
  "foldr (\<lambda>x acc. x @ sep # acc) (butlast (split s sep)) (last (split s sep)) = s"
  by (induction s) (auto split: list.splits)

lemma basename_no_slash: "slash \<notin> set s \<Longrightarrow> basename s = s"
proof -
  assume a: "slash \<notin> set s"
  have d: "dropWhile (\<lambda>c. c = slash) (rev s) = rev s"
    using a by (cases "rev s") (auto simp del: rev_is_Nil_conv)
  have t: "takeWhile (\<lambda>c. c \<noteq> slash) (rev s) = rev s"
    using a by (auto simp: takeWhile_eq_all_conv)
  show ?thesis by (simp add: basename_def d t)
qed

lemma basename_last_split:
  assumes "s = [] \<or> last s \<noteq> slash"
  shows "basename s = last (split s slash)"
proof -
  have "dropWhile (\<lambda>c. c = slash) (rev s) = rev s"
    using assms by (cases s rule: rev_cases) auto
  then show ?thesis by (simp add: basename_def last_split)
qed

lemma basename_trailing_slash: "basename (x @ [slash]) = basename x"
  by (simp add: basename_def)

subsection \<open>The two entry patterns\<close>

lemma isChildrenEntry_prefix:
  "isChildrenEntry s \<Longrightarrow> \<exists>t. s = js ''entry'' @ dot # dot # t"
  by (auto simp: isChildrenEntry_def childrenEntry_re_def full_match_Lit_Seq full_match_Chr_Seq)

lemma isChildrenEntry_Nil [simp]: "\<not> isChildrenEntry []"
  using isChildrenEntry_prefix by fastforce

lemma isChildrenEntry_dot [simp]: "\<not> isChildrenEntry (dot # t)"
proof
  assume "isChildrenEntry (dot # t)"
  then obtain u where "dot # t = js ''entry'' @ dot # dot # u"
    using isChildrenEntry_prefix by blast
  then show False by (simp add: js_def dot_def)
qed

lemma isNormalEntry_double_dot: "\<not> isNormalEntry (js ''entry'' @ dot # dot # t)"
proof
  assume "isNormalEntry (js ''entry'' @ dot # dot # t)"
  then have "full_match (Star (Seq (Chr dot) (OneOrMore segment_char))) (dot # dot # t)"
    by (simp add: isNormalEntry_def normalEntry_re_def full_match_Lit_Seq)
  then obtain u v where uv: "dot # dot # t = u @ v" "full_match (Seq (Chr dot) (OneOrMore segment_char)) u"
    by (subst (asm) full_match_Star) auto
  from uv(2) obtain g where g: "u = dot # g" "g \<noteq> []"
      "\<forall>c\<in>set g. in_class False [(0x30, 0x39), (0x41, 0x5A), (0x61, 0x7A), (0x2D, 0x2D)] c"
    by (auto simp: full_match_Chr_Seq segment_char_def full_match_OneOrMore_Cls)
  from g(2) obtain c g' where "g = c # g'" by (cases g) auto
  with uv(1) g(1) have "c = dot" by simp
  with g(3) \<open>g = c # g'\<close> show False using segment_class_dot by simp
qed

text \<open>The two patterns, written out as the words they accept.\<close>

lemma segment_char_class:
  "in_class False [(0x30, 0x39), (0x41, 0x5A), (0x61, 0x7A), (0x2D, 0x2D)] c = is_segment_char c"
  by (auto simp: in_class_def in_ranges_def is_segment_char_def)

lemma full_match_segment_run:
  "full_match (OneOrMore segment_char) g = (g \<noteq> [] \<and> (\<forall>c\<in>set g. is_segment_char c))"
  by (simp add: segment_char_def full_match_OneOrMore_Cls segment_char_class)

lemma isNormalEntry_grammar:
  "isNormalEntry s =
     (\<exists>gs. s = js ''entry'' @ concat (map (\<lambda>g. dot # g) gs) \<and>
           (\<forall>g\<in>set gs. g \<noteq> [] \<and> (\<forall>c\<in>set g. is_segment_char c)))"
proof -
  let ?G = "Seq (Chr dot) (OneOrMore segment_char)"
  let ?ok = "\<lambda>g. g \<noteq> [] \<and> (\<forall>c\<in>set g. is_segment_char c)"
  have grp: "full_match ?G w = (\<exists>g. w = dot # g \<and> ?ok g)" for w
    by (simp add: full_match_Chr_Seq full_match_segment_run)
  have "(\<exists>ws. v = concat ws \<and> (\<forall>w\<in>set ws. w \<noteq> [] \<and> full_match ?G w)) =
        (\<exists>gs. v = concat (map (\<lambda>g. dot # g) gs) \<and> (\<forall>g\<in>set gs. ?ok g))" for v
  proof
    assume "\<exists>ws. v = concat ws \<and> (\<forall>w\<in>set ws. w \<noteq> [] \<and> full_match ?G w)"
    then obtain ws where ws: "v = concat ws" "\<forall>w\<in>set ws. full_match ?G w" by blast
    from ws(2) have "\<forall>w\<in>set ws. w = dot # tl w \<and> ?ok (tl w)"
      unfolding grp by auto
    then have "ws = map (\<lambda>g. dot # g) (map tl ws) \<and> (\<forall>g\<in>set (map tl ws). ?ok g)"
      by (induction ws) auto
    with ws(1) show "\<exists>gs. v = concat (map (\<lambda>g. dot # g) gs) \<and> (\<forall>g\<in>set gs. ?ok g)"
      by metis
  next
    assume "\<exists>gs. v = concat (map (\<lambda>g. dot # g) gs) \<and> (\<forall>g\<in>set gs. ?ok g)"
    then obtain gs where gs: "v = concat (map (\<lambda>g. dot # g) gs)" "\<forall>g\<in>set gs. ?ok g" by blast
    then have "\<forall>w\<in>set (map (\<lambda>g. dot # g) gs). w \<noteq> [] \<and> full_match ?G w"
      unfolding grp by auto
    with gs(1) show "\<exists>ws. v = concat ws \<and> (\<forall>w\<in>set ws. w \<noteq> [] \<and> full_match ?G w)"
      by blast
  qed
  then have it: "full_match (Star ?G) v =
        (\<exists>gs. v = concat (map (\<lambda>g. dot # g) gs) \<and> (\<forall>g\<in>set gs. ?ok g))" for v
    unfolding full_match_Star_concat .
  show ?thesis
    unfolding isNormalEntry_def normalEntry_re_def full_match_Lit_Seq it
    by blast
qed

lemma isChildrenEntry_grammar:
  "isChildrenEntry s =
     (\<exists>gs. s = js ''entry..'' @ concat (map (\<lambda>g. g @ [dot]) gs) @ js ''children'' \<and>
           (\<forall>g\<in>set gs. g \<noteq> [] \<and> (\<forall>c\<in>set g. is_segment_char c)))"
proof -
  let ?G = "Seq (OneOrMore segment_char) (Chr dot)"
  let ?ok = "\<lambda>g. g \<noteq> [] \<and> (\<forall>c\<in>set g. is_segment_char c)"
  have grp: "full_match ?G w = (\<exists>g. w = g @ [dot] \<and> ?ok g)" for w
    by (auto simp: full_match_Seq full_match_segment_run)
  have it: "(\<exists>ws. v = concat ws \<and> (\<forall>w\<in>set ws. w \<noteq> [] \<and> full_match ?G w)) =
        (\<exists>gs. v = concat (map (\<lambda>g. g @ [dot]) gs) \<and> (\<forall>g\<in>set gs. ?ok g))" for v
  proof
    assume "\<exists>ws. v = concat ws \<and> (\<forall>w\<in>set ws. w \<noteq> [] \<and> full_match ?G w)"
    then obtain ws where ws: "v = concat ws" "\<forall>w\<in>set ws. full_match ?G w" by blast
    from ws(2) have "\<forall>w\<in>set ws. w = butlast w @ [dot] \<and> ?ok (butlast w)"
      unfolding grp by auto
    then have "ws = map (\<lambda>g. g @ [dot]) (map butlast ws) \<and> (\<forall>g\<in>set (map butlast ws). ?ok g)"
      by (induction ws) auto
    with ws(1) show "\<exists>gs. v = concat (map (\<lambda>g. g @ [dot]) gs) \<and> (\<forall>g\<in>set gs. ?ok g)"
      by metis
  next
    assume "\<exists>gs. v = concat (map (\<lambda>g. g @ [dot]) gs) \<and> (\<forall>g\<in>set gs. ?ok g)"
    then obtain gs where gs: "v = concat (map (\<lambda>g. g @ [dot]) gs)" "\<forall>g\<in>set gs. ?ok g" by blast
    then have "\<forall>w\<in>set (map (\<lambda>g. g @ [dot]) gs). w \<noteq> [] \<and> full_match ?G w"
      unfolding grp by auto
    with gs(1) show "\<exists>ws. v = concat ws \<and> (\<forall>w\<in>set ws. w \<noteq> [] \<and> full_match ?G w)"
      by blast
  qed
  have opt: "full_match (Opt (Star ?G)) v = full_match (Star ?G) v" for v
    by (auto simp: Opt_def full_match.simps)
  have j: "js ''entry..'' = js ''entry'' @ [dot, dot]" by (simp add: js_def dot_def)
  have "isChildrenEntry s =
     (\<exists>v t. s = js ''entry'' @ dot # dot # v @ t \<and> full_match (Star ?G) v \<and> t = js ''children'')"
    unfolding isChildrenEntry_def childrenEntry_re_def full_match_Lit_Seq full_match_Chr_Seq
      full_match_Seq [of "Opt _"] opt full_match_Lit
    by auto
  then show ?thesis
    unfolding full_match_Star_concat it j by auto
qed

subsection \<open>Routing on the prefix\<close>

lemma startsWith_iff: "startsWith s t = (\<exists>r. s = t @ r)"
proof
  assume "startsWith s t"
  then have "s = t @ drop (length t) s"
    by (metis append_take_drop_id startsWith_def)
  then show "\<exists>r. s = t @ r" ..
next
  assume "\<exists>r. s = t @ r"
  then show "startsWith s t" by (auto simp: startsWith_def)
qed

lemma js_dot: "js ''.'' = [dot]" by (simp add: js_def dot_def)
lemma js_dotdot: "js ''..'' = [dot, dot]" by (simp add: js_def dot_def)
lemma js_dotslash: "js ''./'' = [dot, slash]" by (simp add: js_def dot_def slash_def)

lemma chars_distinct: "dot \<noteq> slash" "at_sign \<noteq> dot" "at_sign \<noteq> slash"
  by (simp_all add: dot_def slash_def at_sign_def)

lemma ImportDeclaration_topLevel:
  "startsWith p (js ''@/'') \<Longrightarrow> ImportDeclaration p = topLevel_branch p"
  by (simp add: ImportDeclaration_def)

lemma ImportDeclaration_parent:
  "startsWith p (js ''..'') \<Longrightarrow> ImportDeclaration p = parent_branch p"
  using chars_distinct
  by (auto simp: ImportDeclaration_def startsWith_iff js_dot js_dotdot js_marker)

lemma ImportDeclaration_subdirectory:
  "startsWith p (js ''./'') \<Longrightarrow> ImportDeclaration p = subdirectory_branch p"
  using chars_distinct
  by (auto simp: ImportDeclaration_def startsWith_iff js_dot js_dotdot js_dotslash js_marker)

lemma not_children_after_dot: "\<not> isChildrenEntry (strip_extension (dot # t))"
  using strip_extension_Cons [of dot t] by auto

subsection \<open>The file name in the parent branch\<close>

lemma parent_fileName:
  assumes p: "p = dot # dot # t" and len: "length (split p slash) \<le> 2"
  shows "isChildrenEntry (strip_extension (basename p)) =
         isChildrenEntry (strip_extension (last (split p slash)))"
proof (cases "last p = slash")
  case False
  then show ?thesis by (simp add: basename_last_split)
next
  case True
  from p have "p \<noteq> []" by simp
  with True obtain x where x: "p = x @ [slash]"
    by (metis append_butlast_last_id)
  have "t \<noteq> []" using p True chars_distinct(1) by auto
  then have "last t = slash" using p True by simp
  with \<open>t \<noteq> []\<close> have "t = butlast t @ [slash]" by (metis append_butlast_last_id)
  with p x have xd: "x = dot # dot # butlast t"
    by (metis append_Cons append_same_eq)
  have "length (filter (\<lambda>c. c = slash) x) = 0"
    using len unfolding x by (simp add: length_split)
  then have ns: "slash \<notin> set x"
    by (auto simp: filter_empty_conv)
  have b: "basename p = x"
    unfolding x by (simp add: basename_trailing_slash basename_no_slash [OF ns])
  have l: "last (split p slash) = []"
    unfolding x by (simp add: last_split)
  have "\<not> isChildrenEntry (strip_extension x)"
    unfolding xd by (rule not_children_after_dot)
  then show ?thesis by (simp add: b l)
qed

lemma parent_branch_final_segment:
  assumes "startsWith p (js ''..'')"
  shows "parent_branch p =
     (if 2 < length (split p slash) then [tooManyDirectorySegments]
      else if isChildrenEntry (strip_extension (last (split p slash))) then []
      else [invalidParentImport])"
proof -
  from assms obtain t where p: "p = dot # dot # t"
    by (auto simp: startsWith_iff js_dotdot)
  show ?thesis
  proof (cases "2 < length (split p slash)")
    case True
    then show ?thesis by (simp add: parent_branch_def)
  next
    case False
    then have "length (split p slash) \<le> 2" by simp
    from parent_fileName [OF p this] False show ?thesis
      by (simp add: parent_branch_def)
  qed
qed

subsection \<open>The top-level branch after the match\<close>

lemma topLevel_branch_Some:
  assumes "match_topLevel p = Some (m, r)"
  shows "topLevel_branch p =
     (if slash \<in> set r then [invalidTopLevelImportDepth]
      else if isChildrenEntry (strip_extension r) then [invalidTopLevelImportChildren]
      else if isNormalEntry (strip_extension r) then []
      else [invalidTopLevelImport])"
  using assms by (simp add: topLevel_branch_def includes_char_def Let_def)

lemma topLevel_branch_None:
  "match_topLevel p = None \<Longrightarrow> topLevel_branch p = [invalidTopLevelImport]"
  by (simp add: topLevel_branch_def)

subsection \<open>Appending an extension to a path\<close>

lemma extension_chars:
  assumes "e \<in> set extensions"
  shows "e \<noteq> []" "slash \<notin> set e" "\<forall>c\<in>set e. \<not> line_terminator c" "last e \<noteq> slash"
  using assms by (auto simp: extensions_def js_def slash_def line_terminator_def)

lemma has_extension_suffix: "has_extension b \<Longrightarrow> has_extension (a @ b)"
  unfolding has_extension_iff by (metis append.assoc)

lemma length_split_append:
  "sep \<notin> set e \<Longrightarrow> length (split (s @ e) sep) = length (split s sep)"
  by (auto simp: length_split filter_empty_conv)

lemma last_split_append:
  "sep \<notin> set e \<Longrightarrow> last (split (s @ e) sep) = last (split s sep) @ e"
  by (simp add: split_append_no_sep)

lemma last_split_suffix: "\<exists>a. s = a @ last (split s sep)"
proof -
  have "rev s = takeWhile (\<lambda>c. c \<noteq> sep) (rev s) @ dropWhile (\<lambda>c. c \<noteq> sep) (rev s)"
    by simp
  then have "s = rev (dropWhile (\<lambda>c. c \<noteq> sep) (rev s)) @ rev (takeWhile (\<lambda>c. c \<noteq> sep) (rev s))"
    by (metis rev_append rev_rev_ident)
  then show ?thesis unfolding last_split ..
qed

lemma strip_final_segment:
  assumes "e \<in> set extensions" "\<not> has_extension p"
  shows "strip_extension (last (split (p @ e) slash)) = strip_extension (last (split p slash))"
proof -
  obtain a where "p = a @ last (split p slash)" using last_split_suffix by blast
  with assms(2) have "\<not> has_extension (last (split p slash))"
    using has_extension_suffix by metis
  then have "strip_extension (last (split p slash)) = last (split p slash)"
    by (rule strip_extension_same)
  then show ?thesis
    using extension_chars(2) [OF assms(1)]
    by (simp add: last_split_append strip_extension_append [OF assms(1)])
qed

lemma startsWith_append: "startsWith p t \<Longrightarrow> startsWith (p @ e) t"
  by (auto simp: startsWith_iff)

lemma parent_branch_extension:
  assumes "startsWith p (js ''..'')" "e \<in> set extensions" "\<not> has_extension p"
  shows "parent_branch (p @ e) = parent_branch p"
  using extension_chars(2) [OF assms(2)]
  by (simp add: parent_branch_final_segment [OF assms(1)]
        parent_branch_final_segment [OF startsWith_append [OF assms(1)]]
        length_split_append strip_final_segment [OF assms(2,3)])


lemma endsWith_slash: "endsWith p (js ''/'') = (p \<noteq> [] \<and> last p = slash)"
proof -
  have j: "js ''/'' = [slash]" by (simp add: js_def slash_def)
  show ?thesis
    unfolding j endsWith_iff by (cases p rule: rev_cases) auto
qed

lemma subdirectory_branch_extension:
  assumes st: "startsWith p (js ''./'')" and e: "e \<in> set extensions"
    and ne: "\<not> has_extension p" and nt: "\<not> endsWith p (js ''/'')"
  shows "subdirectory_branch (p @ e) = subdirectory_branch p"
proof -
  from st obtain q where p: "p = dot # slash # q"
    by (auto simp: startsWith_iff js_dotslash)
  have ns: "slash \<notin> set e" using e by (rule extension_chars)
  have sl: "slice_from (p @ e) 2 = slice_from p 2 @ e"
    by (simp add: slice_from_def p)
  have len: "length (split (slice_from (p @ e) 2) slash) = length (split (slice_from p 2) slash)"
    unfolding sl using ns by (rule length_split_append)
  have "last p \<noteq> slash" using nt p by (simp add: endsWith_slash)
  then have b1: "basename p = last (split p slash)"
    by (simp add: basename_last_split)
  have "last (p @ e) \<noteq> slash"
    using extension_chars(1,4) [OF e] by simp
  then have b2: "basename (p @ e) = last (split (p @ e) slash)"
    by (simp add: basename_last_split)
  have f: "strip_extension (basename (p @ e)) = strip_extension (basename p)"
    unfolding b1 b2 using e ne by (rule strip_final_segment)
  show ?thesis
    by (simp add: subdirectory_branch_def Let_def len f)
qed

lemma append_slash_split:
  assumes "p @ e = x @ slash # r" and "slash \<notin> set e"
  shows "\<exists>r'. p = x @ slash # r' \<and> r = r' @ e"
proof -
  from assms(1) have "p @ e = (x @ [slash]) @ r" by simp
  then obtain u where u: "(p = (x @ [slash]) @ u \<and> u @ e = r) \<or> (p @ u = x @ [slash] \<and> e = u @ r)"
    unfolding append_eq_append_conv2 by blast
  show ?thesis
  proof (cases "u = []")
    case True
    with u have "p = x @ slash # [] \<and> r = [] @ e" by auto
    then show ?thesis by blast
  next
    case False
    have "\<not> (p @ u = x @ [slash] \<and> e = u @ r)"
    proof
      assume a: "p @ u = x @ [slash] \<and> e = u @ r"
      then have "last (p @ u) = slash" by simp
      with False have "last u = slash" by simp
      with False have "slash \<in> set u" using last_in_set by metis
      with a assms(2) show False by simp
    qed
    with u have "p = x @ slash # u \<and> r = u @ e" by auto
    then show ?thesis by blast
  qed
qed

lemma isNormalEntry_Nil [simp]: "\<not> isNormalEntry []"
  unfolding isNormalEntry_def normalEntry_re_def full_match_Lit_Seq by (simp add: js_def)

lemma topLevel_branch_extension:
  assumes e: "e \<in> set extensions" and ne: "\<not> has_extension p"
  shows "topLevel_branch (p @ e) = topLevel_branch p"
proof (cases "full_match topLevel_re p")
  case True
  then obtain m r where d: "p = js ''@/'' @ m @ slash # r" "m \<noteq> []" "slash \<notin> set m"
      "r \<noteq> []" "\<forall>c\<in>set r. \<not> line_terminator c"
    unfolding full_match_topLevel by blast
  have m1: "match_topLevel p = Some (m, r)"
    unfolding d(1) using d(2-5) by (rule match_topLevel_Some)
  have "r @ e \<noteq> []" "\<forall>c\<in>set (r @ e). \<not> line_terminator c"
    using d(4,5) extension_chars(3) [OF e] by auto
  with d(2,3) have "match_topLevel (js ''@/'' @ m @ slash # (r @ e)) = Some (m, r @ e)"
    by (rule match_topLevel_Some)
  then have m2: "match_topLevel (p @ e) = Some (m, r @ e)"
    by (simp add: d(1))
  have "p = (js ''@/'' @ m @ [slash]) @ r" using d(1) by simp
  then have "\<not> has_extension r"
    using ne has_extension_suffix by metis
  then have s1: "strip_extension r = r" by (rule strip_extension_same)
  have s2: "strip_extension (r @ e) = r" using e by (rule strip_extension_append)
  show ?thesis
    using extension_chars(2) [OF e]
    by (simp add: topLevel_branch_Some [OF m1] topLevel_branch_Some [OF m2] s1 s2)
next
  case False
  then have n1: "topLevel_branch p = [invalidTopLevelImport]"
    by (simp add: topLevel_branch_None match_topLevel_def)
  show ?thesis
  proof (cases "full_match topLevel_re (p @ e)")
    case False
    then have "topLevel_branch (p @ e) = [invalidTopLevelImport]"
      by (simp add: topLevel_branch_None match_topLevel_def)
    with n1 show ?thesis by simp
  next
    case True
    then obtain m r where d: "p @ e = js ''@/'' @ m @ slash # r" "m \<noteq> []" "slash \<notin> set m"
        "r \<noteq> []" "\<forall>c\<in>set r. \<not> line_terminator c"
      unfolding full_match_topLevel by blast
    from d(1) have "p @ e = (js ''@/'' @ m) @ slash # r" by simp
    then obtain r' where r': "p = (js ''@/'' @ m) @ slash # r'" "r = r' @ e"
      using append_slash_split [OF _ extension_chars(2) [OF e]] by blast
    have "r' = []"
    proof (rule ccontr)
      assume "r' \<noteq> []"
      moreover have "\<forall>c\<in>set r'. \<not> line_terminator c" using d(5) r'(2) by simp
      ultimately have "full_match topLevel_re p"
        unfolding full_match_topLevel using d(2,3) r'(1) by auto
      with False show False by simp
    qed
    with r'(2) have re: "r = e" by simp
    have "match_topLevel (js ''@/'' @ m @ slash # r) = Some (m, r)"
      using d(2-5) by (rule match_topLevel_Some)
    then have m2: "match_topLevel (p @ e) = Some (m, e)"
      by (simp add: d(1) re)
    have "strip_extension ([] @ e) = []" using e by (rule strip_extension_append)
    then have "topLevel_branch (p @ e) = [invalidTopLevelImport]"
      using extension_chars(2) [OF e] by (simp add: topLevel_branch_Some [OF m2])
    with n1 show ?thesis by simp
  qed
qed

subsection \<open>The file name in the subdirectory branch\<close>

text \<open>
  When the path does not end in a separator, \<open>path.basename\<close> returns the final segment,
  and the subdirectory branch decides on it.
\<close>

lemma subdirectory_branch_final_segment:
  assumes st: "startsWith p (js ''./'')" and nt: "\<not> endsWith p (js ''/'')"
  shows "subdirectory_branch p =
     (if length (split (slice_from p 2) slash) = 1 then []
      else if 2 < length (split (slice_from p 2) slash) then [tooManyDirectorySegments]
      else if isNormalEntry (strip_extension (last (split (slice_from p 2) slash))) \<and>
              \<not> isChildrenEntry (strip_extension (last (split (slice_from p 2) slash)))
           then []
      else [invalidSubdirectoryImport])"
proof (cases "slash \<in> set (slice_from p 2)")
  case False
  then have "length (split (slice_from p 2) slash) = 1"
    by (simp add: split_no_sep)
  then show ?thesis by (simp add: subdirectory_branch_def)
next
  case True
  from st obtain q where p: "p = dot # slash # q"
    by (auto simp: startsWith_iff js_dotslash)
  from True have q: "slash \<in> set (rev q)" by (simp add: p slice_from_def)
  have "last p \<noteq> slash" using nt p by (simp add: endsWith_slash)
  then have "basename p = last (split p slash)"
    by (simp add: basename_last_split)
  also have "\<dots> = last (split (slice_from p 2) slash)"
    using takeWhile_append1 [OF q, of "\<lambda>c. c \<noteq> slash" "[slash, dot]"]
    by (simp add: last_split p slice_from_def)
  finally show ?thesis
    by (auto simp: subdirectory_branch_def Let_def)
qed

section \<open>The claims\<close>

text \<open>
  In the theorems below \<open>ImportDeclaration p = []\<close> says that the call reports nothing
  (the classifier returns no violation), and \<open>ImportDeclaration p = [k]\<close> that it reports
  exactly the violation \<open>k\<close>.
\<close>

text \<open>
  C1. No file name is accepted by both entry patterns: the normal pattern is \<open>entry\<close> and
  then groups of one dot and one or more characters of \<open>[0-9A-Za-z-]\<close>; the children
  pattern is \<open>entry..\<close>, then groups of such a run and a dot, then \<open>children\<close>
  (\<open>isNormalEntry_grammar\<close> and \<open>isChildrenEntry_grammar\<close> state the two regular
  expressions of the source in these words).
\<close>

theorem entry_grammars_disjoint: "\<not> (isNormalEntry s \<and> isChildrenEntry s)"
  using isChildrenEntry_prefix [of s] isNormalEntry_double_dot by auto

text \<open>
  C2. One call reports at most one violation, whatever the path; so in the subdirectory
  branch the report for a name that is no normal entry and the later report for a
  children entry never both happen.
\<close>

theorem at_most_one_report:
  "length (ImportDeclaration p) \<le> 1 \<and> length (subdirectory_branch p) \<le> 1"
  by (simp add: ImportDeclaration_def topLevel_branch_def parent_branch_def
        subdirectory_branch_def Let_def split: option.split prod.split)

text \<open>
  C3, as the claim states it, fails: \<open>..helper\<close> starts with two dots that no separator
  follows and holds no separator, and the call reports \<open>invalidParentImport\<close>.
\<close>

theorem near_parent_path_counterexample:
  "startsWith (js ''..helper'') (js ''..'') \<and> slash \<notin> set (js ''..helper'') \<and>
   ImportDeclaration (js ''..helper'') = [invalidParentImport]"
  by code_simp

text \<open>
  C3, amended. Every path whose first two characters are \<open>..\<close> goes to the parent
  branch, whatever follows them; such a path without any separator is reported as
  \<open>invalidParentImport\<close>.
\<close>

theorem two_dots_route_to_parent_branch:
  assumes "startsWith p (js ''..'')"
  shows "ImportDeclaration p = parent_branch p \<and>
         (slash \<notin> set p \<longrightarrow> ImportDeclaration p = [invalidParentImport])"
proof
  show r: "ImportDeclaration p = parent_branch p"
    using assms by (rule ImportDeclaration_parent)
  show "slash \<notin> set p \<longrightarrow> ImportDeclaration p = [invalidParentImport]"
  proof
    assume ns: "slash \<notin> set p"
    from assms obtain t where p: "p = dot # dot # t"
      by (auto simp: startsWith_iff js_dotdot)
    have "\<not> isChildrenEntry (strip_extension p)"
      unfolding p by (rule not_children_after_dot)
    then have "\<not> isChildrenEntry (strip_extension (basename p))"
      by (simp add: basename_no_slash [OF ns])
    then show "ImportDeclaration p = [invalidParentImport]"
      unfolding r by (simp add: parent_branch_def split_no_sep [OF ns])
  qed
qed

theorem two_dots_route_to_parent_branch_witness:
  "startsWith (js ''..lib.ts'') (js ''..'') \<and> slash \<notin> set (js ''..lib.ts'') \<and>
   ImportDeclaration (js ''..lib.ts'') = parent_branch (js ''..lib.ts'') \<and>
   ImportDeclaration (js ''..lib.ts'') = [invalidParentImport]"
proof -
  have h: "startsWith (js ''..lib.ts'') (js ''..'')" by code_simp
  have n: "slash \<notin> set (js ''..lib.ts'')" by code_simp
  show ?thesis
    using two_dots_route_to_parent_branch [OF h] h n by metis
qed

text \<open>
  C4, as the claim states it, fails: the path \<open>@/a/b\<close>, a line feed, \<open>/c\<close> is the
  marker, the module segment \<open>a\<close> and a non-empty rest that holds a separator, and the
  report is \<open>invalidTopLevelImport\<close>, not \<open>invalidTopLevelImportDepth\<close>: the \<open>.\<close> of the
  pattern matches no line terminator.
\<close>

theorem topLevel_line_terminator_counterexample:
  "startsWith (js ''@/a/b'' @ [0x0A] @ js ''/c'') (js ''@/'') \<and>
   js ''@/a/b'' @ [0x0A] @ js ''/c'' = js ''@/'' @ js ''a'' @ [slash] @ (js ''b'' @ [0x0A] @ js ''/c'') \<and>
   js ''a'' \<noteq> [] \<and> slash \<notin> set (js ''a'') \<and>
   slash \<in> set (js ''b'' @ [0x0A] @ js ''/c'') \<and>
   ImportDeclaration (js ''@/a/b'' @ [0x0A] @ js ''/c'') = [invalidTopLevelImport]"
  by code_simp

text \<open>
  C4, amended. For a path that starts with \<open>@/\<close>: when it is not the marker, a non-empty
  module segment without separator, a separator and a non-empty rest without line
  terminator, the report is \<open>invalidTopLevelImport\<close>. When it is, a separator in the rest
  gives \<open>invalidTopLevelImportDepth\<close>; otherwise, with the extension stripped from the
  rest, a children entry gives \<open>invalidTopLevelImportChildren\<close>, a normal entry gives no
  report, and any other name gives \<open>invalidTopLevelImport\<close>.
\<close>

theorem topLevel_branch_postcondition:
  assumes "startsWith p (js ''@/'')"
  shows
   "(\<not> (\<exists>m r. p = js ''@/'' @ m @ [slash] @ r \<and> m \<noteq> [] \<and> slash \<notin> set m \<and>
             r \<noteq> [] \<and> (\<forall>c\<in>set r. \<not> line_terminator c))
       \<longrightarrow> ImportDeclaration p = [invalidTopLevelImport]) \<and>
    (\<forall>m r. p = js ''@/'' @ m @ [slash] @ r \<and> m \<noteq> [] \<and> slash \<notin> set m \<and>
           r \<noteq> [] \<and> (\<forall>c\<in>set r. \<not> line_terminator c) \<longrightarrow>
       (slash \<in> set r \<longrightarrow> ImportDeclaration p = [invalidTopLevelImportDepth]) \<and>
       (slash \<notin> set r \<and> isChildrenEntry (strip_extension r)
          \<longrightarrow> ImportDeclaration p = [invalidTopLevelImportChildren]) \<and>
       (slash \<notin> set r \<and> isNormalEntry (strip_extension r)
          \<longrightarrow> ImportDeclaration p = []) \<and>
       (slash \<notin> set r \<and> \<not> isChildrenEntry (strip_extension r) \<and> \<not> isNormalEntry (strip_extension r)
          \<longrightarrow> ImportDeclaration p = [invalidTopLevelImport]))"
proof (intro conjI impI allI)
  assume "\<not> (\<exists>m r. p = js ''@/'' @ m @ [slash] @ r \<and> m \<noteq> [] \<and> slash \<notin> set m \<and>
             r \<noteq> [] \<and> (\<forall>c\<in>set r. \<not> line_terminator c))"
  then have "match_topLevel p = None"
    by (intro match_topLevel_None) simp
  then show "ImportDeclaration p = [invalidTopLevelImport]"
    by (simp add: ImportDeclaration_topLevel [OF assms] topLevel_branch_None)
next
  fix m r
  assume d: "p = js ''@/'' @ m @ [slash] @ r \<and> m \<noteq> [] \<and> slash \<notin> set m \<and>
           r \<noteq> [] \<and> (\<forall>c\<in>set r. \<not> line_terminator c)"
  then have "match_topLevel p = Some (m, r)"
    using match_topLevel_Some [of m r] by simp
  then have b: "ImportDeclaration p =
     (if slash \<in> set r then [invalidTopLevelImportDepth]
      else if isChildrenEntry (strip_extension r) then [invalidTopLevelImportChildren]
      else if isNormalEntry (strip_extension r) then []
      else [invalidTopLevelImport])"
    by (simp only: ImportDeclaration_topLevel [OF assms] topLevel_branch_Some)
  have dj: "\<not> (isNormalEntry (strip_extension r) \<and> isChildrenEntry (strip_extension r))"
    using isChildrenEntry_prefix [of "strip_extension r"] isNormalEntry_double_dot by auto
  { assume "slash \<in> set r" then show "ImportDeclaration p = [invalidTopLevelImportDepth]"
      by (simp add: b) }
  { assume "slash \<notin> set r \<and> isChildrenEntry (strip_extension r)"
    then show "ImportDeclaration p = [invalidTopLevelImportChildren]" by (simp add: b) }
  { assume "slash \<notin> set r \<and> isNormalEntry (strip_extension r)"
    then show "ImportDeclaration p = []" using dj by (auto simp: b) }
  { assume "slash \<notin> set r \<and> \<not> isChildrenEntry (strip_extension r) \<and> \<not> isNormalEntry (strip_extension r)"
    then show "ImportDeclaration p = [invalidTopLevelImport]" by (simp add: b) }
qed


theorem topLevel_branch_postcondition_witness:
  "startsWith (js ''@/ui/entry.core.ts'') (js ''@/'') \<and>
   js ''@/ui/entry.core.ts'' = js ''@/'' @ js ''ui'' @ [slash] @ js ''entry.core.ts'' \<and>
   js ''ui'' \<noteq> [] \<and> slash \<notin> set (js ''ui'') \<and> js ''entry.core.ts'' \<noteq> [] \<and>
   list_all (\<lambda>c. \<not> line_terminator c) (js ''entry.core.ts'') \<and>
   slash \<notin> set (js ''entry.core.ts'') \<and>
   isNormalEntry (strip_extension (js ''entry.core.ts'')) \<and>
   ImportDeclaration (js ''@/ui/entry.core.ts'') = [] \<and>
   startsWith (js ''@/ui'') (js ''@/'') \<and>
   \<not> full_match topLevel_re (js ''@/ui'') \<and>
   ImportDeclaration (js ''@/ui'') = [invalidTopLevelImport]"
proof -
  have h: "startsWith (js ''@/ui/entry.core.ts'') (js ''@/'')" by code_simp
  have d: "js ''@/ui/entry.core.ts'' = js ''@/'' @ js ''ui'' @ [slash] @ js ''entry.core.ts''"
    by code_simp
  have c: "js ''ui'' \<noteq> []" "slash \<notin> set (js ''ui'')" "js ''entry.core.ts'' \<noteq> []"
    "list_all (\<lambda>c. \<not> line_terminator c) (js ''entry.core.ts'')"
    "slash \<notin> set (js ''entry.core.ts'')"
    "isNormalEntry (strip_extension (js ''entry.core.ts''))"
    by code_simp+
  have h2: "startsWith (js ''@/ui'') (js ''@/'')" by code_simp
  have n: "\<not> full_match topLevel_re (js ''@/ui'')" by code_simp
  then have n': "\<not> (\<exists>m r. js ''@/ui'' = js ''@/'' @ m @ [slash] @ r \<and> m \<noteq> [] \<and> slash \<notin> set m \<and>
             r \<noteq> [] \<and> (\<forall>c\<in>set r. \<not> line_terminator c))"
    by (simp add: full_match_topLevel)
  have r1: "ImportDeclaration (js ''@/ui/entry.core.ts'') = []"
    using topLevel_branch_postcondition [OF h] d c by (simp add: list_all_iff)
  have r2: "ImportDeclaration (js ''@/ui'') = [invalidTopLevelImport]"
    using topLevel_branch_postcondition [OF h2] n' by blast
  show ?thesis using h d c h2 n r1 r2 by simp
qed

text \<open>
  C5. For a path that starts with \<open>..\<close>: more than two segments of the whole path give
  \<open>tooManyDirectorySegments\<close>; otherwise nothing is reported exactly when the last
  segment, with a recognized extension stripped, is a children entry, and
  \<open>invalidParentImport\<close> is reported otherwise. The four paths named by the claim follow.
\<close>

theorem parent_branch_postcondition:
  "(startsWith p (js ''..'') \<longrightarrow>
      ImportDeclaration p =
        (if 2 < length (split p slash) then [tooManyDirectorySegments]
         else if isChildrenEntry (strip_extension (last (split p slash))) then []
         else [invalidParentImport])) \<and>
   ImportDeclaration (js ''../entry..children'') = [] \<and>
   ImportDeclaration (js ''../entry..utils.children'') = [] \<and>
   ImportDeclaration (js ''../entry'') = [invalidParentImport] \<and>
   ImportDeclaration (js ''../../entry..children'') = [tooManyDirectorySegments]"
proof -
  have "ImportDeclaration (js ''../entry..children'') = []" by code_simp
  moreover have "ImportDeclaration (js ''../entry..utils.children'') = []" by code_simp
  moreover have "ImportDeclaration (js ''../entry'') = [invalidParentImport]" by code_simp
  moreover have "ImportDeclaration (js ''../../entry..children'') = [tooManyDirectorySegments]"
    by code_simp
  ultimately show ?thesis
    by (simp add: ImportDeclaration_parent parent_branch_final_segment)
qed

theorem parent_branch_postcondition_witness:
  "startsWith (js ''../entry..canvas.children.tsx'') (js ''..'') \<and>
   \<not> 2 < length (split (js ''../entry..canvas.children.tsx'') slash) \<and>
   last (split (js ''../entry..canvas.children.tsx'') slash) = js ''entry..canvas.children.tsx'' \<and>
   strip_extension (js ''entry..canvas.children.tsx'') = js ''entry..canvas.children'' \<and>
   isChildrenEntry (js ''entry..canvas.children'') \<and>
   ImportDeclaration (js ''../entry..canvas.children.tsx'') = []"
proof -
  have h: "startsWith (js ''../entry..canvas.children.tsx'') (js ''..'')" by code_simp
  have a: "\<not> 2 < length (split (js ''../entry..canvas.children.tsx'') slash)" by code_simp
  have b: "last (split (js ''../entry..canvas.children.tsx'') slash) = js ''entry..canvas.children.tsx''"
    by code_simp
  have c: "strip_extension (js ''entry..canvas.children.tsx'') = js ''entry..canvas.children''"
    by code_simp
  have d: "isChildrenEntry (js ''entry..canvas.children'')" by code_simp
  from parent_branch_postcondition [of "js ''../entry..canvas.children.tsx''"] h
  have "ImportDeclaration (js ''../entry..canvas.children.tsx'') =
        (if 2 < length (split (js ''../entry..canvas.children.tsx'') slash) then [tooManyDirectorySegments]
         else if isChildrenEntry (strip_extension (last (split (js ''../entry..canvas.children.tsx'') slash))) then []
         else [invalidParentImport])" by blast
  with a b c d h show ?thesis by simp
qed

text \<open>
  C6 at the path \<open>./entry/\<close>. Without the prefix it has the two segments \<open>entry\<close> and
  the empty string, and the empty final segment is no normal entry, so the claim asks for
  \<open>invalidSubdirectoryImport\<close>. The handler takes the file name with \<open>path.basename\<close>,
  which ignores the trailing separator and returns the directory name \<open>entry\<close>; nothing
  is reported.
\<close>

theorem subdirectory_trailing_separator:
  "startsWith (js ''./entry/'') (js ''./'') \<and>
   split (slice_from (js ''./entry/'') 2) slash = [js ''entry'', []] \<and>
   \<not> isNormalEntry (strip_extension []) \<and>
   basename (js ''./entry/'') = js ''entry'' \<and>
   ImportDeclaration (js ''./entry/'') = []"
  by code_simp

text \<open>
  C7. A path that starts neither with \<open>.\<close> nor with the marker \<open>@/\<close> is out of scope:
  nothing is reported, whatever the rest of the path is.
\<close>

theorem out_of_scope_accepted:
  "\<not> startsWith p (js ''.'') \<and> \<not> startsWith p (js ''@/'') \<Longrightarrow> ImportDeclaration p = []"
  by (simp add: ImportDeclaration_def)

theorem out_of_scope_accepted_witness:
  "\<not> startsWith (js ''react/jsx-runtime'') (js ''.'') \<and>
   \<not> startsWith (js ''react/jsx-runtime'') (js ''@/'') \<and>
   ImportDeclaration (js ''react/jsx-runtime'') = []"
proof -
  have h: "\<not> startsWith (js ''react/jsx-runtime'') (js ''.'') \<and>
           \<not> startsWith (js ''react/jsx-runtime'') (js ''@/'')" by code_simp
  show ?thesis
    using out_of_scope_accepted [OF h] h by simp
qed

text \<open>
  C8, as the claim states it, fails: only one extension is stripped. The final segment
  of \<open>../entry..children.ts.ts\<close> carries the extension \<open>.ts\<close>; the path is reported as
  \<open>invalidParentImport\<close>, and with that extension removed it is accepted.
\<close>

theorem double_extension_counterexample:
  "js ''../entry..children.ts.ts'' = js ''../entry..children.ts'' @ js ''.ts'' \<and>
   js ''.ts'' \<in> set extensions \<and>
   startsWith (js ''../entry..children.ts'') (js ''..'') \<and>
   last (split (js ''../entry..children.ts.ts'') slash) = js ''entry..children.ts'' @ js ''.ts'' \<and>
   ImportDeclaration (js ''../entry..children.ts.ts'') = [invalidParentImport] \<and>
   ImportDeclaration (js ''../entry..children.ts'') = []"
  by code_simp


text \<open>
  C8, amended. Let a path start with \<open>@/\<close>, \<open>..\<close> or \<open>./\<close> and not itself end in a
  recognized extension (and, in the subdirectory branch, not end in a separator). Then the
  path with any recognized extension appended is classified as the path itself.
\<close>

theorem extension_insensitive:
  assumes "startsWith p (js ''@/'') \<or> startsWith p (js ''..'') \<or> startsWith p (js ''./'')"
    and "e \<in> set extensions"
    and "\<not> has_extension p"
    and "\<not> (startsWith p (js ''./'') \<and> endsWith p (js ''/''))"
  shows "ImportDeclaration (p @ e) = ImportDeclaration p"
proof -
  consider "startsWith p (js ''@/'')" | "startsWith p (js ''..'')" | "startsWith p (js ''./'')"
    using assms(1) by blast
  then show ?thesis
  proof cases
    case 1
    then show ?thesis
      using topLevel_branch_extension [OF assms(2,3)]
      by (simp add: ImportDeclaration_topLevel startsWith_append)
  next
    case 2
    then show ?thesis
      using parent_branch_extension [OF 2 assms(2,3)]
      by (simp add: ImportDeclaration_parent startsWith_append)
  next
    case 3
    with assms(4) have "\<not> endsWith p (js ''/'')" by simp
    from subdirectory_branch_extension [OF 3 assms(2,3) this] 3 show ?thesis
      by (simp add: ImportDeclaration_subdirectory startsWith_append)
  qed
qed


theorem extension_insensitive_witness:
  "(startsWith (js ''@/ui/entry'') (js ''@/'') \<or> startsWith (js ''@/ui/entry'') (js ''..'') \<or>
      startsWith (js ''@/ui/entry'') (js ''./'')) \<and>
   js ''.ts'' \<in> set extensions \<and> js ''.tsx'' \<in> set extensions \<and>
   \<not> has_extension (js ''@/ui/entry'') \<and>
   \<not> (startsWith (js ''@/ui/entry'') (js ''./'') \<and> endsWith (js ''@/ui/entry'') (js ''/'')) \<and>
   ImportDeclaration (js ''@/ui/entry.ts'') = ImportDeclaration (js ''@/ui/entry'') \<and>
   ImportDeclaration (js ''@/ui/entry.tsx'') = ImportDeclaration (js ''@/ui/entry'') \<and>
   (startsWith (js ''./ui/entry.core'') (js ''@/'') \<or> startsWith (js ''./ui/entry.core'') (js ''..'') \<or>
      startsWith (js ''./ui/entry.core'') (js ''./'')) \<and>
   \<not> has_extension (js ''./ui/entry.core'') \<and>
   \<not> (startsWith (js ''./ui/entry.core'') (js ''./'') \<and> endsWith (js ''./ui/entry.core'') (js ''/'')) \<and>
   ImportDeclaration (js ''./ui/entry.core.ts'') = ImportDeclaration (js ''./ui/entry.core'') \<and>
   ImportDeclaration (js ''./ui/entry.core.tsx'') = ImportDeclaration (js ''./ui/entry.core'')"
proof -
  have a: "startsWith (js ''@/ui/entry'') (js ''@/'') \<or> startsWith (js ''@/ui/entry'') (js ''..'') \<or>
      startsWith (js ''@/ui/entry'') (js ''./'')" by code_simp
  have e: "js ''.ts'' \<in> set extensions" "js ''.tsx'' \<in> set extensions" by code_simp+
  have b: "\<not> has_extension (js ''@/ui/entry'')" by code_simp
  have c: "\<not> (startsWith (js ''@/ui/entry'') (js ''./'') \<and> endsWith (js ''@/ui/entry'') (js ''/''))"
    by code_simp
  have a': "startsWith (js ''./ui/entry.core'') (js ''@/'') \<or> startsWith (js ''./ui/entry.core'') (js ''..'') \<or>
      startsWith (js ''./ui/entry.core'') (js ''./'')" by code_simp
  have b': "\<not> has_extension (js ''./ui/entry.core'')" by code_simp
  have c': "\<not> (startsWith (js ''./ui/entry.core'') (js ''./'') \<and> endsWith (js ''./ui/entry.core'') (js ''/''))"
    by code_simp
  have j: "js ''@/ui/entry'' @ js ''.ts'' = js ''@/ui/entry.ts''"
    "js ''@/ui/entry'' @ js ''.tsx'' = js ''@/ui/entry.tsx''"
    "js ''./ui/entry.core'' @ js ''.ts'' = js ''./ui/entry.core.ts''"
    "js ''./ui/entry.core'' @ js ''.tsx'' = js ''./ui/entry.core.tsx''"
    by (simp_all add: js_def)
  show ?thesis
    using extension_insensitive [OF a e(1) b c] extension_insensitive [OF a e(2) b c]
      extension_insensitive [OF a' e(1) b' c'] extension_insensitive [OF a' e(2) b' c']
      a e b c a' b' c'
    unfolding j by simp
qed

text \<open>
  C9. The module segment of a top-level import is not looked at: for every non-empty
  segment \<open>m\<close> without a separator, \<open>@/m/entry\<close> is accepted. The witness takes the two
  segments \<open>..\<close> and \<open>entry..children\<close> that the claim names.
\<close>

theorem module_segment_not_validated:
  assumes "m \<noteq> []" and "slash \<notin> set m"
  shows "ImportDeclaration (js ''@/'' @ m @ js ''/entry'') = []"
proof -
  have e: "js ''/entry'' = slash # js ''entry''" by (simp add: js_def slash_def)
  have nl: "\<forall>c\<in>set (js ''entry''). \<not> line_terminator c"
    by (simp add: js_def line_terminator_def)
  have ne: "js ''entry'' \<noteq> []" by (simp add: js_def)
  have mt: "match_topLevel (js ''@/'' @ m @ js ''/entry'') = Some (m, js ''entry'')"
    unfolding e using assms ne nl by (rule match_topLevel_Some)
  have st: "startsWith (js ''@/'' @ m @ js ''/entry'') (js ''@/'')"
    by (simp add: startsWith_def)
  have f1: "slash \<notin> set (js ''entry'')" by code_simp
  have f2: "\<not> isChildrenEntry (strip_extension (js ''entry''))" by code_simp
  have f3: "isNormalEntry (strip_extension (js ''entry''))" by code_simp
  show ?thesis
    by (simp add: ImportDeclaration_topLevel [OF st] topLevel_branch_Some [OF mt] f1 f2 f3)
qed

theorem module_segment_not_validated_witness:
  "js ''..'' \<noteq> [] \<and> slash \<notin> set (js ''..'') \<and>
   js ''entry..children'' \<noteq> [] \<and> slash \<notin> set (js ''entry..children'') \<and>
   ImportDeclaration (js ''@/../entry'') = [] \<and>
   ImportDeclaration (js ''@/entry..children/entry'') = []"
proof -
  have a: "js ''..'' \<noteq> []" "slash \<notin> set (js ''..'')" by code_simp+
  have b: "js ''entry..children'' \<noteq> []" "slash \<notin> set (js ''entry..children'')" by code_simp+
  have c: "js ''@/'' @ js ''..'' @ js ''/entry'' = js ''@/../entry''"
    "js ''@/'' @ js ''entry..children'' @ js ''/entry'' = js ''@/entry..children/entry''"
    by (simp_all add: js_def)
  show ?thesis
    using module_segment_not_validated [OF a] module_segment_not_validated [OF b] a b unfolding c by simp
qed

text \<open>
  C10. The bare parent marker \<open>..\<close> is reported as \<open>invalidParentImport\<close>: it is one
  segment, which is taken as the file name and is no children entry. The single dot
  \<open>.\<close> passes the first test, enters no branch, and nothing is reported.
\<close>

theorem dot_only_paths:
  "ImportDeclaration (js ''..'') = [invalidParentImport] \<and>
   split (js ''..'') slash = [js ''..''] \<and>
   basename (js ''..'') = js ''..'' \<and>
   \<not> isChildrenEntry (strip_extension (js ''..'')) \<and>
   startsWith (js ''.'') (js ''.'') \<and>
   \<not> startsWith (js ''.'') (js ''@/'') \<and>
   \<not> startsWith (js ''.'') (js ''..'') \<and>
   \<not> startsWith (js ''.'') (js ''./'') \<and>
   ImportDeclaration (js ''.'') = []"
  by code_simp

end
